theory Spec2Isabelle
  imports Main "HOL-Library.Multiset"
begin

section \<open>Homepage photo rotation (CDPv4/src/App.js, \<open>getRotatedPhotos\<close>)\<close>

subsection \<open>Photo documents\<close>

text \<open>
  A photo document as \<open>Homepage\<close> reads it from the snapshot: the document id and the
  fields the rotation looks at. \<open>tags\<close> is an array of player names or absent;
  \<open>timestamp\<close> is a store timestamp or absent, kept here as the millisecond value of
  \<open>timestamp.toDate()\<close> (an integer, negative before 1970).
\<close>

record photo =
  id_photo :: string
  tags :: "string list option"
  visibility :: string
  timestamp :: "int option"

text \<open>\<open>photo.tags || []\<close>: an array, also the empty one, is truthy.\<close>

definition tagsOrEmpty :: "photo \<Rightarrow> string list" where
  "tagsOrEmpty p = (case tags p of None \<Rightarrow> [] | Some ts \<Rightarrow> ts)"

text \<open>
  \<open>new Set(xs)\<close> read back in iteration order: a value is added at the end the first
  time it is seen and ignored afterwards.
\<close>

definition setAdd :: "'a list \<Rightarrow> 'a \<Rightarrow> 'a list" where
  "setAdd s x = (if x \<in> set s then s else s @ [x])"

definition newSet :: "'a list \<Rightarrow> 'a list" where
  "newSet xs = foldl setAdd [] xs"

subsection \<open>The steps of the rotation\<close>

definition publicPhotos :: "photo list \<Rightarrow> photo list" where
  "publicPhotos photos = filter (\<lambda>p. visibility p = ''public'') photos"

definition allPlayers :: "photo list \<Rightarrow> string list" where
  "allPlayers pub = newSet (concat (map tagsOrEmpty pub))"

text \<open>\<open>photo.tags && photo.tags.length >= 3\<close> and \<open>photo.tags && photo.tags.length < 3\<close>.\<close>

definition isTeamPhoto :: "photo \<Rightarrow> bool" where
  "isTeamPhoto p = (case tags p of None \<Rightarrow> False | Some ts \<Rightarrow> 3 \<le> length ts)"

definition isIndividualPhoto :: "photo \<Rightarrow> bool" where
  "isIndividualPhoto p = (case tags p of None \<Rightarrow> False | Some ts \<Rightarrow> length ts < 3)"

definition teamPhotos :: "photo list \<Rightarrow> photo list" where
  "teamPhotos pub = filter isTeamPhoto pub"

definition individualPhotos :: "photo list \<Rightarrow> photo list" where
  "individualPhotos pub = filter isIndividualPhoto pub"

text \<open>The team photos pushed first: \<open>teamPhotos.slice(0, Math.min(teamPhotos.length, 6))\<close>.\<close>

definition seedPhotos :: "photo list \<Rightarrow> photo list" where
  "seedPhotos team =
     (if 0 < length team then take (min (length team) 6) team else [])"

definition featuredPlayers :: "photo list \<Rightarrow> string list" where
  "featuredPlayers rot = newSet (concat (map tagsOrEmpty rot))"

definition remainingPlayers :: "string list \<Rightarrow> string list \<Rightarrow> string list" where
  "remainingPlayers players featured = filter (\<lambda>player. player \<notin> set featured) players"

text \<open>\<open>individualPhotos.filter(photo => photo.tags && photo.tags.includes(player))\<close>.\<close>

definition playerPhotos :: "photo list \<Rightarrow> string \<Rightarrow> photo list" where
  "playerPhotos individual player =
     filter (\<lambda>p. case tags p of None \<Rightarrow> False | Some ts \<Rightarrow> player \<in> set ts) individual"

text \<open>One round of the \<open>forEach\<close> over the remaining players.\<close>

definition addPlayer :: "photo list \<Rightarrow> photo list \<Rightarrow> string \<Rightarrow> photo list" where
  "addPlayer individual rot player =
     (case playerPhotos individual player of [] \<Rightarrow> rot | ph # _ \<Rightarrow> rot @ [ph])"

definition coveragePass :: "photo list \<Rightarrow> string list \<Rightarrow> photo list \<Rightarrow> photo list" where
  "coveragePass individual remaining rot = foldl (addPlayer individual) rot remaining"

text \<open>The fill step, with the local constant \<open>maxPhotos\<close> as its first argument.\<close>

definition fillPass :: "nat \<Rightarrow> photo list \<Rightarrow> photo list \<Rightarrow> photo list" where
  "fillPass m individual rot =
     (if length rot < m
      then rot @ take (m - length rot)
                   (filter (\<lambda>p. id_photo p \<notin> set (map id_photo rot)) individual)
      else rot)"

definition maxPhotos :: nat where
  "maxPhotos = 12"

text \<open>The array \<open>rotatedPhotos\<close> as it stands just before the final sort.\<close>

definition selectPhotos :: "nat \<Rightarrow> photo list \<Rightarrow> photo list" where
  "selectPhotos m pub =
     (let players = allPlayers pub;
          team = teamPhotos pub;
          individual = individualPhotos pub;
          rot = seedPhotos team;
          remaining = remainingPlayers players (featuredPlayers rot)
      in fillPass m individual (coveragePass individual remaining rot))"

subsection \<open>The final sort\<close>

text \<open>
  \<open>photo.timestamp?.toDate() || 0\<close>: a date object is truthy, so only an absent
  timestamp gives 0; the subtraction turns a date into its milliseconds.
\<close>

definition sortKey :: "photo \<Rightarrow> int" where
  "sortKey p = (case timestamp p of None \<Rightarrow> 0 | Some t \<Rightarrow> t)"

definition compareFn :: "photo \<Rightarrow> photo \<Rightarrow> int" where
  "compareFn a b = sortKey b - sortKey a"

text \<open>
  \<open>Array.prototype.sort\<close> with a comparator is a stable sort: an element stays in front
  of a later one unless the comparator puts it behind.
\<close>

fun insertBy :: "('a \<Rightarrow> 'a \<Rightarrow> int) \<Rightarrow> 'a \<Rightarrow> 'a list \<Rightarrow> 'a list" where
  "insertBy cmp x [] = [x]"
| "insertBy cmp x (y # ys) =
     (if cmp x y \<le> 0 then x # y # ys else y # insertBy cmp x ys)"

definition sortBy :: "('a \<Rightarrow> 'a \<Rightarrow> int) \<Rightarrow> 'a list \<Rightarrow> 'a list" where
  "sortBy cmp xs = foldr (insertBy cmp) xs []"

definition getRotatedPhotos :: "photo list \<Rightarrow> photo list" where
  "getRotatedPhotos photos =
     (let pub = publicPhotos photos
      in if length pub = 0 then []
         else sortBy compareFn (selectPhotos maxPhotos pub))"

subsection \<open>The rotation on the store\<close>

text \<open>
  \<open>getRotatedPhotos\<close> is a closure of the \<open>Homepage\<close> component: it takes no argument and
  reads the array that the \<open>photos\<close> state variable refers to. It builds its result with
  arrays that it changes in place (\<open>push\<close>, \<open>sort\<close>). Here the arrays of photo documents
  live in a store, a list of arrays addressed by position; a new array is put at the end.
  The documents themselves are never written, and the arrays and sets of player names
  and ids are local values.
\<close>

type_synonym addr = nat

type_synonym heap = "photo list list"

text \<open>An array literal; \<open>filter\<close> and \<open>slice(0, n)\<close> return a new array.\<close>

definition newArray :: "photo list \<Rightarrow> heap \<Rightarrow> addr \<times> heap" where
  "newArray xs h = (length h, h @ [xs])"

definition arrFilter :: "(photo \<Rightarrow> bool) \<Rightarrow> addr \<Rightarrow> heap \<Rightarrow> addr \<times> heap" where
  "arrFilter P a h = newArray (filter P (h ! a)) h"

definition arrSlice :: "nat \<Rightarrow> addr \<Rightarrow> heap \<Rightarrow> addr \<times> heap" where
  "arrSlice n a h = newArray (take n (h ! a)) h"

text \<open>\<open>a.push(...xs)\<close> and \<open>a.sort(cmp)\<close> write the array \<open>a\<close> itself; \<open>sort\<close> returns it.\<close>

definition arrPush :: "addr \<Rightarrow> photo list \<Rightarrow> heap \<Rightarrow> heap" where
  "arrPush a xs h = h[a := h ! a @ xs]"

definition arrSort :: "(photo \<Rightarrow> photo \<Rightarrow> int) \<Rightarrow> addr \<Rightarrow> heap \<Rightarrow> addr \<times> heap" where
  "arrSort cmp a h = (a, h[a := sortBy cmp (h ! a)])"

text \<open>The steps of the body, each on the store: \<open>rot\<close> is the array \<open>rotatedPhotos\<close>.\<close>

definition seed_st :: "addr \<Rightarrow> addr \<Rightarrow> heap \<Rightarrow> heap" where
  "seed_st team rot h =
     (if 0 < length (h ! team)
      then (let (sl, h') = arrSlice (min (length (h ! team)) 6) team h
            in arrPush rot (h' ! sl) h')
      else h)"

definition addPlayer_st :: "addr \<Rightarrow> addr \<Rightarrow> heap \<Rightarrow> string \<Rightarrow> heap" where
  "addPlayer_st individual rot h player =
     (let (pp, h') = arrFilter (\<lambda>p. case tags p of None \<Rightarrow> False | Some ts \<Rightarrow> player \<in> set ts)
                       individual h
      in if 0 < length (h' ! pp) then arrPush rot [h' ! pp ! 0] h' else h')"

definition coverage_st :: "addr \<Rightarrow> addr \<Rightarrow> string list \<Rightarrow> heap \<Rightarrow> heap" where
  "coverage_st individual rot remaining h = foldl (addPlayer_st individual rot) h remaining"

definition fill_st :: "nat \<Rightarrow> addr \<Rightarrow> addr \<Rightarrow> heap \<Rightarrow> heap" where
  "fill_st m individual rot h =
     (if length (h ! rot) < m
      then (let usedPhotoIds = map id_photo (h ! rot);
                (unused, h1) = arrFilter (\<lambda>p. id_photo p \<notin> set usedPhotoIds) individual h;
                (additional, h2) = arrSlice (m - length (h1 ! rot)) unused h1
            in arrPush rot (h2 ! additional) h2)
      else h)"

text \<open>
  The whole body. \<open>photosRef\<close> is the address held by the \<open>photos\<close> state variable; the
  result is the address of the returned array and the store the call leaves behind.
\<close>

definition getRotatedPhotos_st :: "addr \<Rightarrow> heap \<Rightarrow> addr \<times> heap" where
  "getRotatedPhotos_st photosRef h =
     (let (pub, h1) = arrFilter (\<lambda>p. visibility p = ''public'') photosRef h
      in if length (h1 ! pub) = 0 then newArray [] h1
         else
           (let players = allPlayers (h1 ! pub);
                (team, h2) = arrFilter isTeamPhoto pub h1;
                (individual, h3) = arrFilter isIndividualPhoto pub h2;
                (rot, h4) = newArray [] h3;
                h5 = seed_st team rot h4;
                remaining = remainingPlayers players (featuredPlayers (h5 ! rot));
                h6 = coverage_st individual rot remaining h5;
                h7 = fill_st maxPhotos individual rot h6
            in arrSort compareFn rot h7))"

subsection \<open>Example snapshots\<close>

definition mkPhoto :: "string \<Rightarrow> string list option \<Rightarrow> string \<Rightarrow> int option \<Rightarrow> photo" where
  "mkPhoto i ts v t = \<lparr>id_photo = i, tags = ts, visibility = v, timestamp = t\<rparr>"

text \<open>One public photo tagged with two players that no team photo shows.\<close>

definition pairPhoto :: photo where
  "pairPhoto = mkPhoto ''x'' (Some [''A'', ''B'']) ''public'' None"

text \<open>Six team photos of the players A, B, C; a seventh one that alone shows D.\<close>

definition sixTeams :: "photo list" where
  "sixTeams = map (\<lambda>i. mkPhoto i (Some [''A'', ''B'', ''C'']) ''public'' None)
     [''t1'', ''t2'', ''t3'', ''t4'', ''t5'', ''t6'']"

definition seventhTeam :: photo where
  "seventhTeam = mkPhoto ''t7'' (Some [''A'', ''B'', ''D'']) ''public'' None"

text \<open>Seven photos \<open>i1\<close> .. \<open>i7\<close>, each of one player \<open>P1\<close> .. \<open>P7\<close>.\<close>

definition sevenSolos :: "photo list" where
  "sevenSolos = map (\<lambda>i. mkPhoto (CHR ''i'' # i) (Some [CHR ''P'' # i]) ''public'' None)
     [''1'', ''2'', ''3'', ''4'', ''5'', ''6'', ''7'']"

text \<open>Seven team photos \<open>t1\<close> .. \<open>t7\<close> of four players each, no player on two of them.\<close>

definition sevenTeams :: "photo list" where
  "sevenTeams = map (\<lambda>(i, t). mkPhoto (CHR ''t'' # i)
        (Some [CHR ''a'' # i, CHR ''b'' # i, CHR ''c'' # i, CHR ''d'' # i]) ''public'' t)
     [(''1'', Some 1000), (''2'', Some 7000), (''3'', None), (''4'', Some 3000),
      (''5'', Some 7000), (''6'', Some 2000), (''7'', Some 9000)]"

text \<open>
  Photos that differ in their timestamp: none, one day before 1970, November 2023;
  a public photo without a \<open>tags\<close> field; a private photo with the tags of
  \<open>undatedPhoto\<close> and the latest timestamp of all.
\<close>

definition undatedPhoto :: photo where
  "undatedPhoto = mkPhoto ''a'' (Some [''A'']) ''public'' None"

definition oldPhoto :: photo where
  "oldPhoto = mkPhoto ''b'' (Some [''B'']) ''public'' (Some (- 86400000))"

definition newPhoto :: photo where
  "newPhoto = mkPhoto ''c'' (Some [''C'']) ''public'' (Some 1700000000000)"

definition untaggedPhoto :: photo where
  "untaggedPhoto = mkPhoto ''u'' None ''public'' (Some 1700000000000)"

definition privatePhoto :: photo where
  "privatePhoto = mkPhoto ''p'' (Some [''A'']) ''private'' (Some 1800000000000)"

text \<open>
  Two stores. In the first the \<open>photos\<close> array is at address 1, behind an array left
  by something else; in the second an array with the same documents is at address 0.
\<close>

definition exampleHeap :: heap where
  "exampleHeap = [[privatePhoto, pairPhoto], [undatedPhoto, oldPhoto, privatePhoto, newPhoto]]"

definition otherHeap :: heap where
  "otherHeap = [[undatedPhoto, oldPhoto, privatePhoto, newPhoto]]"

section \<open>Properties of the rotation\<close>

subsection \<open>Sets and the sort\<close>

lemma set_foldl_setAdd: "set (foldl setAdd acc xs) = set acc \<union> set xs"
  by (induction xs arbitrary: acc) (auto simp: setAdd_def)

lemma set_newSet: "set (newSet xs) = set xs"
  by (simp add: newSet_def set_foldl_setAdd)

lemma distinct_foldl_setAdd: "distinct acc \<Longrightarrow> distinct (foldl setAdd acc xs)"
  by (induction xs arbitrary: acc) (auto simp: setAdd_def)

lemma distinct_newSet: "distinct (newSet xs)"
  by (simp add: newSet_def distinct_foldl_setAdd)

text \<open>With this comparator the sort is the library's stable insertion sort on the negated key.\<close>

lemma insertBy_compareFn:
  "insertBy compareFn x ys = insort_key (\<lambda>p. - sortKey p) x ys"
  by (induction ys) (auto simp: compareFn_def)

lemma sortBy_compareFn: "sortBy compareFn xs = sort_key (\<lambda>p. - sortKey p) xs"
  by (induction xs) (simp_all add: sortBy_def insertBy_compareFn)

lemma mset_sortBy: "mset (sortBy compareFn xs) = mset xs"
  by (simp add: sortBy_compareFn)

lemma set_sortBy: "set (sortBy compareFn xs) = set xs"
  by (simp add: sortBy_compareFn)

lemma length_sortBy: "length (sortBy compareFn xs) = length xs"
  by (simp add: sortBy_compareFn)

subsection \<open>What each step appends\<close>

lemma playerPhotos_subset: "set (playerPhotos individual player) \<subseteq> set individual"
  by (auto simp: playerPhotos_def)

lemma addPlayer_cases:
  "addPlayer individual rot player = rot \<or>
   (\<exists>ph \<in> set individual. addPlayer individual rot player = rot @ [ph])"
proof (cases "playerPhotos individual player")
  case Nil
  then show ?thesis by (simp add: addPlayer_def)
next
  case (Cons ph rest)
  then have "ph \<in> set individual"
    using playerPhotos_subset [of individual player] by auto
  with Cons show ?thesis by (simp add: addPlayer_def)
qed

lemma coveragePass_append:
  "\<exists>added. coveragePass individual remaining rot = rot @ added \<and> set added \<subseteq> set individual
     \<and> length added \<le> length remaining"
proof (induction remaining arbitrary: rot)
  case Nil
  then show ?case by (simp add: coveragePass_def)
next
  case (Cons player remaining)
  from Cons.IH [of "addPlayer individual rot player"]
  obtain added where a: "coveragePass individual remaining (addPlayer individual rot player)
      = addPlayer individual rot player @ added" "set added \<subseteq> set individual"
      "length added \<le> length remaining"
    by blast
  have step: "coveragePass individual (player # remaining) rot
      = coveragePass individual remaining (addPlayer individual rot player)"
    by (simp add: coveragePass_def)
  from addPlayer_cases [of individual rot player] show ?case
  proof
    assume "addPlayer individual rot player = rot"
    with a step show ?thesis by auto
  next
    assume "\<exists>ph \<in> set individual. addPlayer individual rot player = rot @ [ph]"
    then obtain ph where "ph \<in> set individual" "addPlayer individual rot player = rot @ [ph]"
      by blast
    with a step have "coveragePass individual (player # remaining) rot = rot @ (ph # added)
       \<and> set (ph # added) \<subseteq> set individual \<and> length (ph # added) \<le> length (player # remaining)"
      by simp
    then show ?thesis by blast
  qed
qed

lemma coveragePass_mono: "set rot \<subseteq> set (coveragePass individual remaining rot)"
  using coveragePass_append [of individual remaining rot] by auto

lemma coveragePass_no_individual: "coveragePass [] remaining rot = rot"
  by (induction remaining arbitrary: rot)
     (simp_all add: coveragePass_def addPlayer_def playerPhotos_def)

lemma fillPass_append:
  "\<exists>added. fillPass m individual rot = rot @ added \<and> set added \<subseteq> set individual
      \<and> length rot + length added \<le> max m (length rot)"
proof (cases "length rot < m")
  case True
  let ?a = "take (m - length rot) (filter (\<lambda>p. id_photo p \<notin> set (map id_photo rot)) individual)"
  have "set ?a \<subseteq> set (filter (\<lambda>p. id_photo p \<notin> set (map id_photo rot)) individual)"
    by (rule set_take_subset)
  then have "set ?a \<subseteq> set individual" by auto
  moreover have "length rot + length ?a \<le> max m (length rot)" using True by simp
  moreover have "fillPass m individual rot = rot @ ?a" using True by (simp add: fillPass_def)
  ultimately show ?thesis by blast
next
  case False
  then show ?thesis by (simp add: fillPass_def)
qed

lemma fillPass_no_individual: "fillPass m [] rot = rot"
  by (simp add: fillPass_def)

lemma seedPhotos_take: "seedPhotos team = take 6 team"
  by (cases team) (simp_all add: seedPhotos_def min_def)

lemma selectPhotos_append:
  "\<exists>added. selectPhotos m pub = take 6 (teamPhotos pub) @ added
      \<and> set added \<subseteq> set (individualPhotos pub)"
proof -
  let ?ind = "individualPhotos pub"
  let ?rot = "seedPhotos (teamPhotos pub)"
  let ?rem = "remainingPlayers (allPlayers pub) (featuredPlayers ?rot)"
  obtain a1 where a1: "coveragePass ?ind ?rem ?rot = ?rot @ a1" "set a1 \<subseteq> set ?ind"
    using coveragePass_append [of ?ind ?rem ?rot] by blast
  obtain a2 where a2: "fillPass m ?ind (?rot @ a1) = (?rot @ a1) @ a2" "set a2 \<subseteq> set ?ind"
    using fillPass_append [of m ?ind "?rot @ a1"] by blast
  have "selectPhotos m pub = take 6 (teamPhotos pub) @ (a1 @ a2)"
    using a1 a2 by (simp add: selectPhotos_def Let_def seedPhotos_take)
  moreover have "set (a1 @ a2) \<subseteq> set ?ind" using a1 a2 by simp
  ultimately show ?thesis by blast
qed

lemma selectPhotos_Nil: "selectPhotos m [] = []"
  by (simp add: selectPhotos_def Let_def teamPhotos_def individualPhotos_def seedPhotos_def
      allPlayers_def newSet_def featuredPlayers_def remainingPlayers_def coveragePass_def
      fillPass_def)

text \<open>The early return for an empty public list gives what the rest of the body would.\<close>

lemma getRotatedPhotos_sort:
  "getRotatedPhotos ps = sortBy compareFn (selectPhotos maxPhotos (publicPhotos ps))"
  by (cases "publicPhotos ps")
     (simp_all add: getRotatedPhotos_def Let_def selectPhotos_Nil sortBy_def)

lemma set_selectPhotos:
  "set (selectPhotos m pub) \<subseteq> set (teamPhotos pub) \<union> set (individualPhotos pub)"
proof -
  obtain added where "selectPhotos m pub = take 6 (teamPhotos pub) @ added"
      "set added \<subseteq> set (individualPhotos pub)"
    using selectPhotos_append by blast
  then show ?thesis using set_take_subset [of 6 "teamPhotos pub"] by auto
qed

lemma set_getRotatedPhotos:
  "set (getRotatedPhotos ps)
     \<subseteq> set (teamPhotos (publicPhotos ps)) \<union> set (individualPhotos (publicPhotos ps))"
  by (simp add: getRotatedPhotos_sort set_sortBy set_selectPhotos)

lemma not_team_individual: "isIndividualPhoto p \<Longrightarrow> \<not> isTeamPhoto p"
  by (auto simp: isIndividualPhoto_def isTeamPhoto_def split: option.splits)

lemma selectPhotos_only_teams:
  assumes "\<forall>p \<in> set pub. isTeamPhoto p"
  shows "selectPhotos m pub = take 6 pub"
proof -
  have t: "teamPhotos pub = pub"
    using assms by (simp add: teamPhotos_def filter_id_conv)
  have "\<forall>p \<in> set pub. \<not> isIndividualPhoto p"
    using assms not_team_individual by blast
  then have i: "individualPhotos pub = []"
    by (simp add: individualPhotos_def filter_empty_conv)
  show ?thesis
    by (simp add: selectPhotos_def Let_def t i coveragePass_no_individual
        fillPass_no_individual seedPhotos_take)
qed

lemma distinct_tags_distinct_photos:
  assumes d: "distinct (concat (map tagsOrEmpty ps))"
    and ne: "\<forall>p \<in> set ps. tagsOrEmpty p \<noteq> []"
  shows "distinct ps"
proof -
  from d have "distinct (removeAll [] (map tagsOrEmpty ps))"
    by (simp add: distinct_concat_iff)
  moreover have "[] \<notin> set (map tagsOrEmpty ps)" using ne by auto
  ultimately have "distinct (map tagsOrEmpty ps)" by simp
  then show ?thesis by (simp add: distinct_map)
qed

subsection \<open>Visibility\<close>

text \<open>
  Claim C7. No element of the rotation has visibility \<open>private\<close>: every element of the
  output of \<open>getRotatedPhotos\<close> is a record whose visibility is the string \<open>public\<close>,
  whatever the tags and timestamps of the private records of the snapshot are.
\<close>

theorem rotation_only_public:
  "p \<in> set (getRotatedPhotos ps) \<Longrightarrow> visibility p = ''public'' \<and> visibility p \<noteq> ''private''"
proof -
  assume "p \<in> set (getRotatedPhotos ps)"
  then have "p \<in> set (publicPhotos ps)"
    using set_getRotatedPhotos [of ps] by (auto simp: teamPhotos_def individualPhotos_def)
  then show ?thesis by (simp add: publicPhotos_def)
qed

theorem rotation_only_public_witness:
  "undatedPhoto \<in> set (getRotatedPhotos [privatePhoto, undatedPhoto])
   \<and> privatePhoto \<notin> set (getRotatedPhotos [privatePhoto, undatedPhoto])
   \<and> visibility undatedPhoto = ''public'' \<and> visibility undatedPhoto \<noteq> ''private''"
proof -
  have m: "undatedPhoto \<in> set (getRotatedPhotos [privatePhoto, undatedPhoto])"
    by code_simp
  have n: "privatePhoto \<notin> set (getRotatedPhotos [privatePhoto, undatedPhoto])"
    by code_simp
  from rotation_only_public [OF m] m n show ?thesis by blast
qed

text \<open>
  Claim C8. When no record of the snapshot has visibility \<open>public\<close> (the empty snapshot
  included), \<open>getRotatedPhotos\<close> returns the empty array.
\<close>

theorem rotation_empty_without_public:
  "\<forall>p \<in> set ps. visibility p \<noteq> ''public'' \<Longrightarrow> getRotatedPhotos ps = []"
proof -
  assume "\<forall>p \<in> set ps. visibility p \<noteq> ''public''"
  then have "publicPhotos ps = []" by (simp add: publicPhotos_def)
  then show ?thesis by (simp add: getRotatedPhotos_def)
qed

theorem rotation_empty_without_public_witness:
  "visibility privatePhoto = ''private''
   \<and> getRotatedPhotos [privatePhoto] = [] \<and> getRotatedPhotos [] = []"
proof -
  have h: "\<forall>p \<in> set [privatePhoto]. visibility p \<noteq> ''public''"
    by (simp add: privatePhoto_def mkPhoto_def)
  have e: "\<forall>p \<in> set ([] :: photo list). visibility p \<noteq> ''public''" by simp
  have v: "visibility privatePhoto = ''private''"
    by (simp add: privatePhoto_def mkPhoto_def)
  from rotation_empty_without_public [OF h] rotation_empty_without_public [OF e] v
  show ?thesis by blast
qed

subsection \<open>Team photos\<close>

text \<open>
  Claim C10. The output of \<open>getRotatedPhotos\<close> holds at most six team photos (records
  with three or more tags): the first step pushes at most six, and every record pushed
  later comes from \<open>individualPhotos\<close>, whose records have fewer than three tags.
\<close>

theorem rotation_at_most_six_team_photos:
  "length (filter isTeamPhoto (getRotatedPhotos ps)) \<le> 6"
proof -
  let ?pub = "publicPhotos ps"
  obtain added where sel: "selectPhotos maxPhotos ?pub = take 6 (teamPhotos ?pub) @ added"
      and ind: "set added \<subseteq> set (individualPhotos ?pub)"
    using selectPhotos_append by blast
  have "filter isTeamPhoto added = []"
    using ind by (auto simp: filter_empty_conv individualPhotos_def not_team_individual)
  then have "length (filter isTeamPhoto (selectPhotos maxPhotos ?pub)) \<le> 6"
    using sel length_filter_le [of isTeamPhoto "take 6 (teamPhotos ?pub)"] by simp
  moreover have "length (filter isTeamPhoto (getRotatedPhotos ps))
      = length (filter isTeamPhoto (selectPhotos maxPhotos ?pub))"
  proof -
    have "mset (filter isTeamPhoto (getRotatedPhotos ps))
        = mset (filter isTeamPhoto (selectPhotos maxPhotos ?pub))"
      by (simp add: getRotatedPhotos_sort mset_sortBy)
    then show ?thesis by (metis size_mset)
  qed
  ultimately show ?thesis by simp
qed

theorem rotation_at_most_six_team_photos_witness:
  "length (filter isTeamPhoto (sevenTeams @ sevenSolos)) = 7
   \<and> length (filter isTeamPhoto (getRotatedPhotos (sevenTeams @ sevenSolos))) = 6"
proof -
  have a: "length (filter isTeamPhoto (sevenTeams @ sevenSolos)) = 7" by code_simp
  have "6 \<le> length (filter isTeamPhoto (getRotatedPhotos (sevenTeams @ sevenSolos)))"
    by code_simp
  with rotation_at_most_six_team_photos [of "sevenTeams @ sevenSolos"] a
  show ?thesis by simp
qed

text \<open>
  Claim C5. A snapshot of seven public team photos with four tags each, no tag on two of
  them: the working selection is the first six in snapshot order for every value of the
  maximum, the output is these six sorted, and the seventh is not in the output. For
  every snapshot and every maximum the first step pushes at most six team photos, and
  no record pushed after it (by the coverage step or the fill step) is a team photo.
\<close>

theorem seven_team_photos_keep_first_six:
  assumes len: "length ps = 7"
    and team: "\<forall>p \<in> set ps. visibility p = ''public'' \<and> (\<exists>ts. tags p = Some ts \<and> length ts = 4)"
    and disj: "distinct (concat (map tagsOrEmpty ps))"
  shows "(\<forall>m. selectPhotos m (publicPhotos ps) = take 6 ps)
       \<and> getRotatedPhotos ps = sortBy compareFn (take 6 ps)
       \<and> length (getRotatedPhotos ps) = 6
       \<and> set (getRotatedPhotos ps) = set (take 6 ps)
       \<and> ps ! 6 \<notin> set (getRotatedPhotos ps)
       \<and> (\<forall>m qs. length (seedPhotos (teamPhotos qs)) \<le> 6
            \<and> (\<exists>added. selectPhotos m qs = seedPhotos (teamPhotos qs) @ added
                  \<and> filter isTeamPhoto added = []))"
proof -
  have pub: "publicPhotos ps = ps"
    using team by (simp add: publicPhotos_def filter_id_conv)
  have allteam: "\<forall>p \<in> set ps. isTeamPhoto p"
    using team by (auto simp: isTeamPhoto_def)
  have sel: "\<forall>m. selectPhotos m (publicPhotos ps) = take 6 ps"
    using allteam by (simp add: pub selectPhotos_only_teams)
  have out: "getRotatedPhotos ps = sortBy compareFn (take 6 ps)"
    by (simp add: getRotatedPhotos_sort sel)
  have l6: "length (getRotatedPhotos ps) = 6"
    using len by (simp add: out length_sortBy)
  have s6: "set (getRotatedPhotos ps) = set (take 6 ps)"
    by (simp add: out set_sortBy)
  have "\<forall>p \<in> set ps. tagsOrEmpty p \<noteq> []"
    using team by (auto simp: tagsOrEmpty_def)
  with disj have "distinct ps" by (rule distinct_tags_distinct_photos)
  moreover have "ps = take 6 ps @ [ps ! 6]"
    using len take_Suc_conv_app_nth [of 6 ps] by simp
  ultimately have "distinct (take 6 ps @ [ps ! 6])" by simp
  then have last: "ps ! 6 \<notin> set (getRotatedPhotos ps)"
    by (simp add: s6)
  have gen: "\<forall>m qs. length (seedPhotos (teamPhotos qs)) \<le> 6
            \<and> (\<exists>added. selectPhotos m qs = seedPhotos (teamPhotos qs) @ added
                  \<and> filter isTeamPhoto added = [])"
  proof (intro allI conjI)
    fix m :: nat and qs :: "photo list"
    show "length (seedPhotos (teamPhotos qs)) \<le> 6" by (simp add: seedPhotos_take)
    obtain added where a: "selectPhotos m qs = take 6 (teamPhotos qs) @ added"
        "set added \<subseteq> set (individualPhotos qs)"
      using selectPhotos_append by blast
    have "filter isTeamPhoto added = []"
      using a(2) by (auto simp: filter_empty_conv individualPhotos_def not_team_individual)
    with a(1) show "\<exists>added. selectPhotos m qs = seedPhotos (teamPhotos qs) @ added
        \<and> filter isTeamPhoto added = []"
      by (auto simp: seedPhotos_take)
  qed
  from sel out l6 s6 last gen show ?thesis by blast
qed

theorem seven_team_photos_keep_first_six_witness:
  "length sevenTeams = 7
   \<and> map visibility sevenTeams = replicate 7 ''public''
   \<and> map (length \<circ> tagsOrEmpty) sevenTeams = replicate 7 4
   \<and> distinct (concat (map tagsOrEmpty sevenTeams))
   \<and> map id_photo (getRotatedPhotos sevenTeams) = [''t2'', ''t5'', ''t4'', ''t6'', ''t1'', ''t3'']
   \<and> sevenTeams ! 6 \<notin> set (getRotatedPhotos sevenTeams)"
proof -
  have h1: "length sevenTeams = 7" by code_simp
  have h2: "\<forall>p \<in> set sevenTeams. visibility p = ''public'' \<and> (\<exists>ts. tags p = Some ts \<and> length ts = 4)"
    by (simp add: sevenTeams_def mkPhoto_def)
  have h3: "distinct (concat (map tagsOrEmpty sevenTeams))" by code_simp
  have e: "map id_photo (sortBy compareFn (take 6 sevenTeams))
      = [''t2'', ''t5'', ''t4'', ''t6'', ''t1'', ''t3'']"
    by code_simp
  from seven_team_photos_keep_first_six [OF h1 h2 h3]
  have a: "getRotatedPhotos sevenTeams = sortBy compareFn (take 6 sevenTeams)"
    and b: "sevenTeams ! 6 \<notin> set (getRotatedPhotos sevenTeams)"
    by blast+
  from a e have c: "map id_photo (getRotatedPhotos sevenTeams)
      = [''t2'', ''t5'', ''t4'', ''t6'', ''t1'', ''t3'']"
    by simp
  have v: "map visibility sevenTeams = replicate 7 ''public''" by code_simp
  have t: "map (length \<circ> tagsOrEmpty) sevenTeams = replicate 7 4" by code_simp
  from h1 v t h3 c b show ?thesis by blast
qed

subsection \<open>Records without tags\<close>

text \<open>
  Claim C4, as the code has it. A record whose \<open>tags\<close> field is absent counts as having
  no tags where the players are collected, but the guard \<open>photo.tags &&\<close> keeps it out of
  the team photos and out of the individual photos alike, and it is never in the output
  of \<open>getRotatedPhotos\<close>. The function is total on such records.
\<close>

theorem untagged_photo_never_selected:
  "tags p = None \<Longrightarrow>
     tagsOrEmpty p = [] \<and> \<not> isTeamPhoto p \<and> \<not> isIndividualPhoto p
     \<and> p \<notin> set (getRotatedPhotos ps)"
proof -
  assume t: "tags p = None"
  then have c: "\<not> isTeamPhoto p" "\<not> isIndividualPhoto p"
    by (simp_all add: isTeamPhoto_def isIndividualPhoto_def)
  then have "p \<notin> set (getRotatedPhotos ps)"
    using set_getRotatedPhotos [of ps] by (auto simp: teamPhotos_def individualPhotos_def)
  with t c show ?thesis by (simp add: tagsOrEmpty_def)
qed

theorem untagged_photo_never_selected_witness:
  "tags untaggedPhoto = None \<and> tagsOrEmpty untaggedPhoto = []
   \<and> \<not> isTeamPhoto untaggedPhoto \<and> \<not> isIndividualPhoto untaggedPhoto
   \<and> untaggedPhoto \<notin> set (getRotatedPhotos [untaggedPhoto, undatedPhoto])"
proof -
  have h: "tags untaggedPhoto = None" by (simp add: untaggedPhoto_def mkPhoto_def)
  from untagged_photo_never_selected [OF h, of "[untaggedPhoto, undatedPhoto]"] h
  show ?thesis by blast
qed

text \<open>
  The claim as the specification words it fails: a public record without \<open>tags\<close> is not
  among the individual photos, and with eleven places left the fill step does not take it.
\<close>

theorem untagged_photo_not_individual_counterexample:
  "visibility untaggedPhoto = ''public'' \<and> tags untaggedPhoto = None
   \<and> untaggedPhoto \<notin> set (individualPhotos (publicPhotos [untaggedPhoto, undatedPhoto]))
   \<and> getRotatedPhotos [untaggedPhoto, undatedPhoto] = [undatedPhoto]
   \<and> getRotatedPhotos [untaggedPhoto] = []"
  by code_simp

subsection \<open>Order of the output\<close>

text \<open>
  Claim C6, as the code has it. The output of \<open>getRotatedPhotos\<close> is sorted by the key
  of the comparator, descending: the timestamp in milliseconds, and 0 (the first instant
  of 1970) for a record without timestamp. Records with equal keys keep the order they
  had in the working selection before the sort. So a record without timestamp comes
  after every record dated later than that instant: a dated record that follows an
  undated one has a timestamp of 0 or less.
\<close>

theorem rotation_sorted_by_sortKey_stable:
  "sorted_wrt (\<lambda>a b. sortKey b \<le> sortKey a) (getRotatedPhotos ps)
   \<and> (\<forall>k. filter (\<lambda>p. sortKey p = k) (getRotatedPhotos ps)
            = filter (\<lambda>p. sortKey p = k) (selectPhotos maxPhotos (publicPhotos ps)))
   \<and> (\<forall>i j t. i < j \<and> j < length (getRotatedPhotos ps)
          \<and> timestamp (getRotatedPhotos ps ! i) = None
          \<and> timestamp (getRotatedPhotos ps ! j) = Some t \<longrightarrow> t \<le> 0)"
proof -
  let ?sel = "selectPhotos maxPhotos (publicPhotos ps)"
  let ?out = "getRotatedPhotos ps"
  have out: "?out = sort_key (\<lambda>p. - sortKey p) ?sel"
    by (simp add: getRotatedPhotos_sort sortBy_compareFn)
  have "sorted (map (\<lambda>p. - sortKey p) ?out)"
    unfolding out by (rule sorted_sort_key)
  then have srt: "sorted_wrt (\<lambda>a b. sortKey b \<le> sortKey a) ?out"
    by (simp add: sorted_map)
  have stable: "\<forall>k. filter (\<lambda>p. sortKey p = k) ?out = filter (\<lambda>p. sortKey p = k) ?sel"
  proof
    fix k
    have "filter (\<lambda>p. - sortKey p = - k) (sort_key (\<lambda>p. - sortKey p) ?sel)
        = filter (\<lambda>p. - sortKey p = - k) ?sel"
      by (rule sort_key_stable)
    then show "filter (\<lambda>p. sortKey p = k) ?out = filter (\<lambda>p. sortKey p = k) ?sel"
      by (simp add: out)
  qed
  have undated: "\<forall>i j t. i < j \<and> j < length ?out \<and> timestamp (?out ! i) = None
        \<and> timestamp (?out ! j) = Some t \<longrightarrow> t \<le> 0"
  proof (intro allI impI)
    fix i j t
    assume h: "i < j \<and> j < length ?out \<and> timestamp (?out ! i) = None
        \<and> timestamp (?out ! j) = Some t"
    then have "sortKey (?out ! j) \<le> sortKey (?out ! i)"
      using srt by (simp add: sorted_wrt_iff_nth_less)
    with h show "t \<le> 0" by (simp add: sortKey_def)
  qed
  from srt stable undated show ?thesis by blast
qed

theorem rotation_sorted_by_sortKey_stable_witness:
  "getRotatedPhotos [undatedPhoto, oldPhoto, newPhoto] = [newPhoto, undatedPhoto, oldPhoto]
   \<and> (1::nat) < 2 \<and> 2 < length (getRotatedPhotos [undatedPhoto, oldPhoto, newPhoto])
   \<and> timestamp (getRotatedPhotos [undatedPhoto, oldPhoto, newPhoto] ! 1) = None
   \<and> timestamp (getRotatedPhotos [undatedPhoto, oldPhoto, newPhoto] ! 2) = Some (- 86400000)
   \<and> sorted_wrt (\<lambda>a b. sortKey b \<le> sortKey a)
        (getRotatedPhotos [undatedPhoto, oldPhoto, newPhoto])"
proof -
  have e: "getRotatedPhotos [undatedPhoto, oldPhoto, newPhoto]
      = [newPhoto, undatedPhoto, oldPhoto]"
    by code_simp
  have t: "timestamp undatedPhoto = None" "timestamp oldPhoto = Some (- 86400000)"
    by code_simp+
  from rotation_sorted_by_sortKey_stable [of "[undatedPhoto, oldPhoto, newPhoto]"] e t
  show ?thesis by simp
qed

text \<open>
  The claim as the specification words it fails: a record without timestamp stays in
  front of a record dated 31 December 1969.
\<close>

theorem undated_before_dated_counterexample:
  "getRotatedPhotos [undatedPhoto, oldPhoto] = [undatedPhoto, oldPhoto]
   \<and> timestamp undatedPhoto = None \<and> timestamp oldPhoto = Some (- 86400000)"
  by code_simp

subsection \<open>Determinism\<close>

text \<open>
  What each step does to the store: it writes the array \<open>rot\<close> and puts new arrays at
  the end, so every array at an address below \<open>rot\<close> stays as it was.
\<close>

lemma arrPush_spec:
  "rot < length h \<Longrightarrow>
     arrPush rot xs h ! rot = h ! rot @ xs \<and> take rot (arrPush rot xs h) = take rot h
     \<and> length (arrPush rot xs h) = length h"
  by (simp add: arrPush_def)

lemma seed_st_spec:
  assumes "team < rot" "rot < length h"
  shows "seed_st team rot h ! rot = h ! rot @ seedPhotos (h ! team)
     \<and> take rot (seed_st team rot h) = take rot h \<and> rot < length (seed_st team rot h)"
  using assms
  by (simp add: seed_st_def seedPhotos_def arrSlice_def newArray_def arrPush_def nth_append)

lemma addPlayer_st_spec:
  assumes "individual < rot" "rot < length h"
  shows "addPlayer_st individual rot h player ! rot = addPlayer (h ! individual) (h ! rot) player
     \<and> take rot (addPlayer_st individual rot h player) = take rot h
     \<and> rot < length (addPlayer_st individual rot h player)"
proof (cases "playerPhotos (h ! individual) player")
  case Nil
  with assms show ?thesis
    by (simp add: addPlayer_st_def addPlayer_def playerPhotos_def arrFilter_def newArray_def
        nth_append)
next
  case (Cons ph rest)
  with assms show ?thesis
    by (simp add: addPlayer_st_def addPlayer_def playerPhotos_def arrFilter_def newArray_def
        arrPush_def nth_append)
qed

lemma nth_of_take_eq:
  "take k h' = take k h \<Longrightarrow> a < k \<Longrightarrow> h' ! a = h ! a"
  by (metis nth_take)

lemma coverage_st_spec:
  "individual < rot \<Longrightarrow> rot < length h \<Longrightarrow>
     coverage_st individual rot remaining h ! rot
        = coveragePass (h ! individual) remaining (h ! rot)
     \<and> take rot (coverage_st individual rot remaining h) = take rot h
     \<and> rot < length (coverage_st individual rot remaining h)"
proof (induction remaining arbitrary: h)
  case Nil
  then show ?case by (simp add: coverage_st_def coveragePass_def)
next
  case (Cons player remaining)
  let ?h = "addPlayer_st individual rot h player"
  from addPlayer_st_spec [OF Cons.prems, of player]
  have s: "?h ! rot = addPlayer (h ! individual) (h ! rot) player"
    and t: "take rot ?h = take rot h" and l: "rot < length ?h"
    by blast+
  from t Cons.prems(1) have i: "?h ! individual = h ! individual" by (rule nth_of_take_eq)
  have step: "coverage_st individual rot (player # remaining) h
      = coverage_st individual rot remaining ?h"
    by (simp add: coverage_st_def)
  from Cons.IH [OF Cons.prems(1) l] s t i step show ?case
    by (simp add: coveragePass_def)
qed

lemma fill_st_spec:
  assumes "individual < rot" "rot < length h"
  shows "fill_st m individual rot h ! rot = fillPass m (h ! individual) (h ! rot)
     \<and> take rot (fill_st m individual rot h) = take rot h
     \<and> rot < length (fill_st m individual rot h)"
  using assms
  by (simp add: fill_st_def fillPass_def arrFilter_def arrSlice_def newArray_def arrPush_def
      nth_append Let_def)

lemma getRotatedPhotos_st_spec:
  assumes "photosRef < length h"
  shows "snd (getRotatedPhotos_st photosRef h) ! fst (getRotatedPhotos_st photosRef h)
           = getRotatedPhotos (h ! photosRef)
     \<and> take (length h) (snd (getRotatedPhotos_st photosRef h)) = h
     \<and> length h \<le> fst (getRotatedPhotos_st photosRef h)
     \<and> fst (getRotatedPhotos_st photosRef h) < length (snd (getRotatedPhotos_st photosRef h))"
proof (cases "publicPhotos (h ! photosRef) = []")
  case True
  then show ?thesis
    using assms
    by (simp add: getRotatedPhotos_st_def getRotatedPhotos_def publicPhotos_def arrFilter_def
        newArray_def nth_append)
next
  case False
  define n where "n = length h"
  define pub where "pub = publicPhotos (h ! photosRef)"
  define ind where "ind = individualPhotos pub"
  define h4 where "h4 = h @ [pub, teamPhotos pub, ind, []]"
  define h5 where "h5 = seed_st (Suc n) (Suc (Suc (Suc n))) h4"
  define rem where "rem = remainingPlayers (allPlayers pub) (featuredPlayers (h5 ! (Suc (Suc (Suc n)))))"
  define h6 where "h6 = coverage_st (Suc (Suc n)) (Suc (Suc (Suc n))) rem h5"
  define h7 where "h7 = fill_st maxPhotos (Suc (Suc n)) (Suc (Suc (Suc n))) h6"
  have run: "getRotatedPhotos_st photosRef h = arrSort compareFn (Suc (Suc (Suc n))) h7"
    using False assms
    by (simp add: getRotatedPhotos_st_def publicPhotos_def teamPhotos_def individualPhotos_def
        arrFilter_def newArray_def nth_append Let_def
        n_def pub_def ind_def h4_def h5_def rem_def h6_def h7_def)
  have l4: "Suc (Suc (Suc n)) < length h4" by (simp add: h4_def n_def)
  have v4: "h4 ! (Suc n) = teamPhotos pub" "h4 ! (Suc (Suc n)) = ind" "h4 ! (Suc (Suc (Suc n))) = []"
    by (simp_all add: h4_def n_def nth_append)
  have o1: "Suc n < Suc (Suc (Suc n))" and o2: "Suc (Suc n) < Suc (Suc (Suc n))" by simp_all
  from seed_st_spec [OF o1 l4]
  have s5: "h5 ! (Suc (Suc (Suc n))) = seedPhotos (teamPhotos pub)"
    and t5: "take (Suc (Suc (Suc n))) h5 = take (Suc (Suc (Suc n))) h4" and l5: "Suc (Suc (Suc n)) < length h5"
    by (simp_all add: h5_def v4)
  have i5: "h5 ! (Suc (Suc n)) = ind"
    using nth_of_take_eq [OF t5 o2] v4(2) by simp
  from coverage_st_spec [OF o2 l5, of rem]
  have s6: "h6 ! (Suc (Suc (Suc n))) = coveragePass ind rem (seedPhotos (teamPhotos pub))"
    and t6: "take (Suc (Suc (Suc n))) h6 = take (Suc (Suc (Suc n))) h5" and l6: "Suc (Suc (Suc n)) < length h6"
    by (simp_all add: h6_def s5 i5)
  have i6: "h6 ! (Suc (Suc n)) = ind"
    using nth_of_take_eq [OF t6 o2] i5 by simp
  from fill_st_spec [OF o2 l6, of maxPhotos]
  have s7: "h7 ! (Suc (Suc (Suc n))) = fillPass maxPhotos ind
        (coveragePass ind rem (seedPhotos (teamPhotos pub)))"
    and t7: "take (Suc (Suc (Suc n))) h7 = take (Suc (Suc (Suc n))) h6" and l7: "Suc (Suc (Suc n)) < length h7"
    by (simp_all add: h7_def s6 i6)
  have sel: "h7 ! (Suc (Suc (Suc n))) = selectPhotos maxPhotos pub"
    by (simp add: s7 selectPhotos_def Let_def rem_def s5 ind_def)
  have "take (Suc (Suc (Suc n))) h7 = take (Suc (Suc (Suc n))) h4" using t7 t6 t5 by simp
  then have "take n (take (Suc (Suc (Suc n))) h7) = take n (take (Suc (Suc (Suc n))) h4)" by simp
  then have frame: "take n h7 = h" by (simp add: min_def h4_def n_def)
  have out: "getRotatedPhotos (h ! photosRef) = sortBy compareFn (selectPhotos maxPhotos pub)"
    using False by (simp add: getRotatedPhotos_def Let_def pub_def)
  have "snd (arrSort compareFn (Suc (Suc (Suc n))) h7) ! fst (arrSort compareFn (Suc (Suc (Suc n))) h7)
      = getRotatedPhotos (h ! photosRef)"
    using l7 by (simp add: arrSort_def sel out)
  moreover have "take (length h) (snd (arrSort compareFn (Suc (Suc (Suc n))) h7)) = h"
    using frame by (simp add: arrSort_def n_def)
  moreover have "length h \<le> fst (arrSort compareFn (Suc (Suc (Suc n))) h7)"
    by (simp add: arrSort_def n_def)
  moreover have "fst (arrSort compareFn (Suc (Suc (Suc n))) h7) < length (snd (arrSort compareFn (Suc (Suc (Suc n))) h7))"
    using l7 by (simp add: arrSort_def)
  ultimately show ?thesis by (simp only: run) 
qed

text \<open>
  Claim C9. Let the \<open>photos\<close> state variable refer to an array of the store. A call of
  \<open>getRotatedPhotos\<close> returns a new array and leaves every array that existed before the
  call as it was, the \<open>photos\<close> array among them, although it pushes and sorts in
  place. A second call on the store that the first one left returns the same sequence of
  documents, and does not change the array the first call returned. The sequence
  returned is a function of the content of the \<open>photos\<close> array alone: it is what the
  rotation computes from that content, and a call on any other store, with the \<open>photos\<close>
  variable at any other address, returns the same sequence when the content is the same.
\<close>

theorem getRotatedPhotos_st_deterministic:
  assumes "photosRef < length h"
  shows "snd (getRotatedPhotos_st photosRef (snd (getRotatedPhotos_st photosRef h)))
            ! fst (getRotatedPhotos_st photosRef (snd (getRotatedPhotos_st photosRef h)))
         = snd (getRotatedPhotos_st photosRef h) ! fst (getRotatedPhotos_st photosRef h)
     \<and> snd (getRotatedPhotos_st photosRef (snd (getRotatedPhotos_st photosRef h)))
            ! fst (getRotatedPhotos_st photosRef h)
         = snd (getRotatedPhotos_st photosRef h) ! fst (getRotatedPhotos_st photosRef h)
     \<and> take (length h) (snd (getRotatedPhotos_st photosRef h)) = h
     \<and> snd (getRotatedPhotos_st photosRef h) ! photosRef = h ! photosRef
     \<and> length h \<le> fst (getRotatedPhotos_st photosRef h)
     \<and> snd (getRotatedPhotos_st photosRef h) ! fst (getRotatedPhotos_st photosRef h)
         = getRotatedPhotos (h ! photosRef)
     \<and> (\<forall>g q. q < length g \<and> g ! q = h ! photosRef \<longrightarrow>
           snd (getRotatedPhotos_st q g) ! fst (getRotatedPhotos_st q g)
             = snd (getRotatedPhotos_st photosRef h) ! fst (getRotatedPhotos_st photosRef h))"
proof -
  let ?r1 = "fst (getRotatedPhotos_st photosRef h)"
  let ?h1 = "snd (getRotatedPhotos_st photosRef h)"
  let ?r2 = "fst (getRotatedPhotos_st photosRef ?h1)"
  let ?h2 = "snd (getRotatedPhotos_st photosRef ?h1)"
  from getRotatedPhotos_st_spec [OF assms]
  have a: "?h1 ! ?r1 = getRotatedPhotos (h ! photosRef)" and f: "take (length h) ?h1 = h"
    and b: "length h \<le> ?r1" "?r1 < length ?h1"
    by blast+
  from f assms have same: "?h1 ! photosRef = h ! photosRef"
    by (metis nth_take)
  from assms b have w: "photosRef < length ?h1" by simp
  from getRotatedPhotos_st_spec [OF w]
  have a2: "?h2 ! ?r2 = getRotatedPhotos (?h1 ! photosRef)"
    and f2: "take (length ?h1) ?h2 = ?h1"
    by blast+
  from a2 same a have twice: "?h2 ! ?r2 = ?h1 ! ?r1" by simp
  from f2 b(2) have kept: "?h2 ! ?r1 = ?h1 ! ?r1" by (metis nth_take)
  have other: "\<forall>g q. q < length g \<and> g ! q = h ! photosRef \<longrightarrow>
      snd (getRotatedPhotos_st q g) ! fst (getRotatedPhotos_st q g) = ?h1 ! ?r1"
  proof (intro allI impI)
    fix g :: heap and q :: addr
    assume h: "q < length g \<and> g ! q = h ! photosRef"
    then have "q < length g" by simp
    from getRotatedPhotos_st_spec [OF this]
    have "snd (getRotatedPhotos_st q g) ! fst (getRotatedPhotos_st q g)
        = getRotatedPhotos (g ! q)"
      by blast
    with h a show "snd (getRotatedPhotos_st q g) ! fst (getRotatedPhotos_st q g) = ?h1 ! ?r1"
      by simp
  qed
  from twice kept f same b(1) a other show ?thesis by blast
qed

theorem getRotatedPhotos_st_deterministic_witness:
  "(1::nat) < length exampleHeap
   \<and> fst (getRotatedPhotos_st 1 exampleHeap) = 5
   \<and> snd (getRotatedPhotos_st 1 exampleHeap) ! 5 = [newPhoto, undatedPhoto, oldPhoto]
   \<and> snd (getRotatedPhotos_st 1 exampleHeap) ! 1 = exampleHeap ! 1
   \<and> fst (getRotatedPhotos_st 1 (snd (getRotatedPhotos_st 1 exampleHeap))) = 14
   \<and> snd (getRotatedPhotos_st 1 (snd (getRotatedPhotos_st 1 exampleHeap))) ! 14
       = [newPhoto, undatedPhoto, oldPhoto]
   \<and> (0::nat) < length otherHeap \<and> otherHeap ! 0 = exampleHeap ! 1
   \<and> snd (getRotatedPhotos_st 0 otherHeap) ! fst (getRotatedPhotos_st 0 otherHeap)
       = [newPhoto, undatedPhoto, oldPhoto]"
proof -
  have w: "(1::nat) < length exampleHeap" by code_simp
  have r1: "fst (getRotatedPhotos_st 1 exampleHeap) = 5" by code_simp
  have c1: "snd (getRotatedPhotos_st 1 exampleHeap) ! 5 = [newPhoto, undatedPhoto, oldPhoto]"
    by code_simp
  have r2: "fst (getRotatedPhotos_st 1 (snd (getRotatedPhotos_st 1 exampleHeap))) = 14"
    by code_simp
  have o: "(0::nat) < length otherHeap \<and> otherHeap ! 0 = exampleHeap ! 1" by code_simp
  note d = getRotatedPhotos_st_deterministic [OF w]
  from d r1 r2 c1
  have c2: "snd (getRotatedPhotos_st 1 (snd (getRotatedPhotos_st 1 exampleHeap))) ! 14
      = [newPhoto, undatedPhoto, oldPhoto]"
    by simp
  from d have s: "snd (getRotatedPhotos_st 1 exampleHeap) ! 1 = exampleHeap ! 1" by blast
  from d o r1 c1
  have c3: "snd (getRotatedPhotos_st 0 otherHeap) ! fst (getRotatedPhotos_st 0 otherHeap)
      = [newPhoto, undatedPhoto, oldPhoto]"
    by simp
  from w r1 c1 s r2 c2 o c3 show ?thesis by blast
qed

subsection \<open>Size of the output\<close>

text \<open>
  The fill step stops at the maximum, the two steps before it do not look at it: the
  output has at most twelve records, or at most six more than there are players.
\<close>

lemma length_remainingPlayers: "length (remainingPlayers players featured) \<le> length players"
  by (simp add: remainingPlayers_def)

lemma length_selectPhotos_bound:
  "length (selectPhotos m pub) \<le> max m (6 + length (allPlayers pub))"
proof -
  let ?ind = "individualPhotos pub"
  let ?rot = "seedPhotos (teamPhotos pub)"
  let ?rem = "remainingPlayers (allPlayers pub) (featuredPlayers ?rot)"
  let ?cov = "coveragePass ?ind ?rem ?rot"
  obtain a1 where a1: "?cov = ?rot @ a1" "length a1 \<le> length ?rem"
    using coveragePass_append [of ?ind ?rem ?rot] by blast
  have "length ?rot \<le> 6" by (simp add: seedPhotos_take)
  with a1 have c: "length ?cov \<le> 6 + length (allPlayers pub)"
    using length_remainingPlayers [of "allPlayers pub" "featuredPlayers ?rot"] by simp
  obtain a2 where a2: "fillPass m ?ind ?cov = ?cov @ a2"
      "length ?cov + length a2 \<le> max m (length ?cov)"
    using fillPass_append [of m ?ind ?cov] by blast
  have "length (selectPhotos m pub) = length ?cov + length a2"
    using a2(1) by (simp add: selectPhotos_def Let_def)
  with a2(2) c show ?thesis by simp
qed

lemma length_getRotatedPhotos_bound:
  "length (getRotatedPhotos ps) \<le> max maxPhotos (6 + length (allPlayers (publicPhotos ps)))"
  by (simp add: getRotatedPhotos_sort length_sortBy length_selectPhotos_bound)

text \<open>
  Claim C2, at an input where the code breaks it. Six team photos and seven photos of
  one further player each, thirteen documents with thirteen ids: the coverage step
  pushes all seven after the six, nothing cuts the array back, and the output has
  thirteen records, one more than \<open>maxPhotos\<close>. And for the single photo \<open>pairPhoto\<close> the
  output has two records, one more than the snapshot.
\<close>

theorem rotation_exceeds_maxPhotos:
  "length (sixTeams @ sevenSolos) = 13
   \<and> distinct (map id_photo (sixTeams @ sevenSolos))
   \<and> length (getRotatedPhotos (sixTeams @ sevenSolos)) = 13
   \<and> maxPhotos = 12
   \<and> length (getRotatedPhotos [pairPhoto]) = 2"
  by code_simp

subsection \<open>Ids in the output\<close>

text \<open>
  Claim C1, at an input where the code breaks it. A snapshot of one public photo with
  two tags and no team photo: the coverage step pushes the photo once for each of its
  two players, without the test on the ids that the fill step makes, and the output
  holds the id \<open>x\<close> twice.
\<close>

theorem coverage_pass_repeats_photo:
  "getRotatedPhotos [pairPhoto] = [pairPhoto, pairPhoto]
   \<and> map id_photo (getRotatedPhotos [pairPhoto]) = [''x'', ''x'']
   \<and> \<not> distinct (map id_photo (getRotatedPhotos [pairPhoto]))"
  by code_simp

subsection \<open>Players in the output\<close>

lemma coveragePass_covers:
  "player \<in> set remaining \<Longrightarrow> playerPhotos individual player \<noteq> [] \<Longrightarrow>
     hd (playerPhotos individual player) \<in> set (coveragePass individual remaining rot)"
proof (induction remaining arbitrary: rot)
  case Nil
  then show ?case by simp
next
  case (Cons a remaining)
  have step: "coveragePass individual (a # remaining) rot
      = coveragePass individual remaining (addPlayer individual rot a)"
    by (simp add: coveragePass_def)
  show ?case
  proof (cases "player = a")
    case True
    from Cons.prems(2) have "hd (playerPhotos individual player) \<in> set (addPlayer individual rot a)"
      using True by (cases "playerPhotos individual a") (simp_all add: addPlayer_def)
    then show ?thesis
      using coveragePass_mono [of "addPlayer individual rot a" individual remaining] step by auto
  next
    case False
    with Cons.prems have "player \<in> set remaining" by simp
    from Cons.IH [OF this Cons.prems(2)] step show ?thesis by simp
  qed
qed

text \<open>
  A player tagged on one of the first six team photos or on an individual photo is on a
  photo of the working selection, whatever the maximum and the number of players are.
\<close>

lemma selectPhotos_covers:
  assumes "player \<in> set (concat (map tagsOrEmpty (take 6 (teamPhotos pub) @ individualPhotos pub)))"
  shows "player \<in> set (concat (map tagsOrEmpty (selectPhotos m pub)))"
proof -
  let ?ind = "individualPhotos pub"
  let ?rot = "seedPhotos (teamPhotos pub)"
  let ?rem = "remainingPlayers (allPlayers pub) (featuredPlayers ?rot)"
  let ?cov = "coveragePass ?ind ?rem ?rot"
  have sub: "set ?cov \<subseteq> set (selectPhotos m pub)"
    using fillPass_append [of m ?ind ?cov] by (auto simp: selectPhotos_def Let_def)
  show ?thesis
  proof (cases "player \<in> set (featuredPlayers ?rot)")
    case True
    then obtain p where "p \<in> set ?rot" "player \<in> set (tagsOrEmpty p)"
      by (auto simp: featuredPlayers_def set_newSet)
    moreover have "set ?rot \<subseteq> set ?cov" by (rule coveragePass_mono)
    ultimately show ?thesis using sub by auto
  next
    case False
    then have "player \<notin> set (concat (map tagsOrEmpty (take 6 (teamPhotos pub))))"
      by (simp add: featuredPlayers_def set_newSet seedPhotos_take)
    with assms obtain p where p: "p \<in> set ?ind" "player \<in> set (tagsOrEmpty p)" by auto
    then have pin: "p \<in> set (playerPhotos ?ind player)"
      by (cases "tags p") (auto simp: playerPhotos_def tagsOrEmpty_def)
    then have ne: "playerPhotos ?ind player \<noteq> []" by auto
    have "p \<in> set pub" using p(1) by (simp add: individualPhotos_def)
    then have "player \<in> set (allPlayers pub)"
      using p(2) by (auto simp: allPlayers_def set_newSet)
    then have "player \<in> set ?rem" using False by (simp add: remainingPlayers_def)
    from coveragePass_covers [OF this ne]
    have h: "hd (playerPhotos ?ind player) \<in> set ?cov" .
    have "hd (playerPhotos ?ind player) \<in> set (playerPhotos ?ind player)" using ne by simp
    then have "player \<in> set (tagsOrEmpty (hd (playerPhotos ?ind player)))"
      by (auto simp: playerPhotos_def tagsOrEmpty_def split: option.splits)
    with h sub show ?thesis by auto
  qed
qed

text \<open>
  Claim C3, at an input where the code breaks it. Seven public team photos with four
  players in all: D is tagged on the seventh only, the first step takes the first six,
  the coverage step looks for D among the individual photos and finds none, and no
  photo of the output shows D.
\<close>

theorem seventh_team_player_not_featured:
  "allPlayers (publicPhotos (sixTeams @ [seventhTeam])) = [''A'', ''B'', ''C'', ''D'']
   \<and> length (allPlayers (publicPhotos (sixTeams @ [seventhTeam]))) \<le> maxPhotos
   \<and> getRotatedPhotos (sixTeams @ [seventhTeam]) = sixTeams
   \<and> ''D'' \<notin> set (concat (map tagsOrEmpty (getRotatedPhotos (sixTeams @ [seventhTeam]))))"
  by code_simp

end
